theory Spec2Isabelle
  imports Main "HOL-Library.Multiset"
begin

section \<open>Python values used by \<open>run_append.py\<close>\<close>

text \<open>
  The exceptions that the statements of \<open>get_reach_dict\<close> can raise. A function
  that may raise returns \<open>error + 'a\<close>, with \<open>Inl\<close> for the exception.
\<close>

datatype error = IndexError | KeyError | ZeroDivisionError

text \<open>\<open>range(n)\<close> for a Python integer \<open>n\<close>: empty when \<open>n \<le> 0\<close>.\<close>

definition py_range :: "int \<Rightarrow> int list" where
  "py_range n = map int [0..<nat n]"

text \<open>
  \<open>xs[i]\<close>: a negative index counts from the end, an index out of range raises
  \<open>IndexError\<close>.
\<close>

definition py_index :: "'a list \<Rightarrow> int \<Rightarrow> error + 'a" where
  "py_index xs i =
     (if 0 \<le> i \<and> i < int (length xs) then Inr (xs ! nat i)
      else if i < 0 \<and> - int (length xs) \<le> i then Inr (xs ! nat (int (length xs) + i))
      else Inl IndexError)"

text \<open>
  \<open>xs[start:end]\<close>: negative bounds count from the end, both bounds are clamped
  to the list, and the slice is a new list (empty when the bounds cross).
\<close>

definition py_slice :: "'a list \<Rightarrow> int \<Rightarrow> int \<Rightarrow> 'a list" where
  "py_slice xs start end =
     (let n = int (length xs);
          s = (if start < 0 then max (start + n) 0 else min start n);
          e = (if end < 0 then max (end + n) 0 else min end n)
      in take (nat e - nat s) (drop (nat s) xs))"

text \<open>
  \<open>s.split(c)\<close> for a one-character separator: the tokens between the
  separators, always at least one token. \<open>cur\<close> is the token being read.
\<close>

fun split_acc :: "char \<Rightarrow> string \<Rightarrow> string \<Rightarrow> string list" where
  "split_acc c cur [] = [cur]"
| "split_acc c cur (x # xs) =
     (if x = c then cur # split_acc c [] xs else split_acc c (cur @ [x]) xs)"

definition split :: "string \<Rightarrow> char \<Rightarrow> string list" where
  "split s c = split_acc c [] s"

text \<open>\<open>sep.join(xs)\<close>.\<close>

fun join :: "string \<Rightarrow> string list \<Rightarrow> string" where
  "join sep [] = []"
| "join sep [x] = x"
| "join sep (x # y # ys) = x @ sep @ join sep (y # ys)"

text \<open>\<open>str(n)\<close> of an integer: its decimal digits, with a sign when negative.\<close>

definition digit_char :: "nat \<Rightarrow> char" where
  "digit_char d = ''0123456789'' ! d"

fun str_nat :: "nat \<Rightarrow> string" where
  "str_nat n = (if n < 10 then [digit_char n] else str_nat (n div 10) @ [digit_char (n mod 10)])"

declare str_nat.simps [simp del]

definition str :: "int \<Rightarrow> string" where
  "str i = (if i < 0 then CHR ''-'' # str_nat (nat (- i)) else str_nat (nat i))"

subsection \<open>Dictionaries\<close>

text \<open>
  A Python \<open>dict\<close> keeps its keys in insertion order, and \<open>log_reaches\<close> writes
  one line per item in that order, so \<open>reach_dict\<close> is an association list with
  at most one pair per key. \<open>d[k] = v\<close> replaces the value of a key that is
  present and appends a new key at the end; \<open>d[k]\<close> raises \<open>KeyError\<close> for a
  key that is absent.
\<close>

type_synonym reach_dict = "(int \<times> string list) list"

fun dict_setitem :: "('k \<times> 'v) list \<Rightarrow> 'k \<Rightarrow> 'v \<Rightarrow> ('k \<times> 'v) list" where
  "dict_setitem [] k v = [(k, v)]"
| "dict_setitem ((k', v') # d) k v =
     (if k' = k then (k, v) # d else (k', v') # dict_setitem d k v)"

definition dict_getitem :: "('k \<times> 'v) list \<Rightarrow> 'k \<Rightarrow> error + 'v" where
  "dict_getitem d k = (case map_of d k of None \<Rightarrow> Inl KeyError | Some v \<Rightarrow> Inr v)"

section \<open>\<open>get_reach_dict\<close>\<close>

text \<open>
  One element of the list comprehension of line 47:
  \<open>entry.name.split('_')[0] + '_' + entry.name.split('_')[1]\<close>.
\<close>

definition reach_key :: "string \<Rightarrow> error + string" where
  "reach_key name =
     (case py_index (split name CHR ''_'') 0 of
        Inl e \<Rightarrow> Inl e
      | Inr a \<Rightarrow>
          (case py_index (split name CHR ''_'') 1 of
             Inl e \<Rightarrow> Inl e
           | Inr b \<Rightarrow> Inr (a @ ''_'' @ b)))"

text \<open>The list comprehension: the first entry that raises ends it.\<close>

fun reach_keys :: "string list \<Rightarrow> error + string list" where
  "reach_keys [] = Inr []"
| "reach_keys (name # entries) =
     (case reach_key name of
        Inl e \<Rightarrow> Inl e
      | Inr k \<Rightarrow>
          (case reach_keys entries of
             Inl e \<Rightarrow> Inl e
           | Inr ks \<Rightarrow> Inr (k # ks)))"

text \<open>
  The first loop (lines 57 to 61), one iteration: rank \<open>i\<close> gets the slice
  \<open>reach_list[reach_count : reach_count + reach_per_rank]\<close>. The state is
  \<open>(reach_dict, reach_count)\<close>.
\<close>

definition assign_block ::
  "string list \<Rightarrow> int \<Rightarrow> int \<Rightarrow> reach_dict \<times> int \<Rightarrow> reach_dict \<times> int" where
  "assign_block reach_list reach_per_rank i st =
     (case st of (reach_dict, reach_count) \<Rightarrow>
        (let start = reach_count;
             end = reach_count + reach_per_rank
         in (dict_setitem reach_dict i (py_slice reach_list start end),
             reach_count + reach_per_rank)))"

text \<open>
  The second loop (lines 67 to 70) over \<open>range(remaining)\<close>. The state is
  \<open>(reach_dict, reach_count, i)\<close>. \<open>reach_dict[i]\<close> is read first and raises
  \<open>KeyError\<close> for a rank without an entry, then \<open>reach_list[reach_count]\<close> is
  read, then the key is appended to the list of rank \<open>i\<close>.
\<close>

fun spread_remaining ::
  "string list \<Rightarrow> int \<Rightarrow> int list \<Rightarrow> reach_dict \<times> int \<times> int
     \<Rightarrow> error + reach_dict \<times> int \<times> int" where
  "spread_remaining reach_list comm_size [] st = Inr st"
| "spread_remaining reach_list comm_size (j # js) (reach_dict, reach_count, i) =
     (case dict_getitem reach_dict i of
        Inl e \<Rightarrow> Inl e
      | Inr value \<Rightarrow>
          (case py_index reach_list reach_count of
             Inl e \<Rightarrow> Inl e
           | Inr reach \<Rightarrow>
               spread_remaining reach_list comm_size js
                 (dict_setitem reach_dict i (value @ [reach]),
                  reach_count + 1,
                  if i = comm_size - 1 then 0 else i + 1)))"

text \<open>
  Lines 50 to 72, from the list of derived keys on. \<open>set_order\<close> is
  \<open>list(set(reach_list))\<close>: the order in which CPython iterates a set of strings
  depends on the hash seed of the process, so the order is a parameter of the
  model. \<open>comm_size\<close> is the \<open>size\<close> of the source, \<open>COMM.Get_size()\<close>.
\<close>

definition divide_reaches ::
  "(string list \<Rightarrow> string list) \<Rightarrow> int \<Rightarrow> string list \<Rightarrow> error + reach_dict" where
  "divide_reaches set_order comm_size keys =
     (let reach_list = set_order keys;
          total_reaches = int (length reach_list)
      in if comm_size = 0 then Inl ZeroDivisionError
         else
           (let reach_per_rank = total_reaches div comm_size;
                (reach_dict, reach_count) =
                   fold (assign_block reach_list reach_per_rank) (py_range comm_size) ([], 0)
            in if total_reaches mod comm_size \<noteq> 0 then
                 (let remaining = total_reaches - reach_count
                  in case spread_remaining reach_list comm_size (py_range remaining)
                            (reach_dict, reach_count, 0) of
                       Inl e \<Rightarrow> Inl e
                     | Inr (reach_dict', reach_count', i') \<Rightarrow> Inr reach_dict')
               else Inr reach_dict))"

text \<open>
  \<open>get_reach_dict\<close>: \<open>entries\<close> are the names that \<open>scandir(data_dir)\<close> yields.
\<close>

definition get_reach_dict ::
  "(string list \<Rightarrow> string list) \<Rightarrow> int \<Rightarrow> string list \<Rightarrow> error + reach_dict" where
  "get_reach_dict set_order comm_size entries =
     (case reach_keys entries of
        Inl e \<Rightarrow> Inl e
      | Inr keys \<Rightarrow> divide_reaches set_order comm_size keys)"

section \<open>\<open>log_reaches\<close> and \<open>log_results\<close>\<close>

text \<open>
  A logger is the list of the lines written so far; \<open>logger.info(line)\<close> appends
  one line (the handlers of \<open>create_main_logger\<close> pass level INFO and format a
  record as its message).
\<close>

type_synonym logger = "string list"

definition info :: "logger \<Rightarrow> string \<Rightarrow> logger" where
  "info logger line = logger @ [line]"

text \<open>
  \<open>log_reaches\<close>, one iteration of the outer loop over \<open>reach_dict.items()\<close>;
  the inner loop counts the elements of \<open>value\<close> one by one. The state is
  \<open>(logger, total_reaches)\<close>.
\<close>

definition log_rank :: "int \<times> string list \<Rightarrow> logger \<times> int \<Rightarrow> logger \<times> int" where
  "log_rank item st =
     (case item of (key, value) \<Rightarrow>
      case st of (logger, total_reaches) \<Rightarrow>
        (let reach_count = fold (\<lambda>element reach_count. reach_count + 1) value 0
         in (info logger (str key @ ''   Reach count:    '' @ str reach_count),
             total_reaches + reach_count)))"

definition log_reaches :: "logger \<Rightarrow> reach_dict \<Rightarrow> logger" where
  "log_reaches logger reach_dict =
     (case fold log_rank reach_dict (logger, 0) of
        (logger', total_reaches) \<Rightarrow>
          info logger' (''Total reach count: '' @ str total_reaches))"

text \<open>
  The two lists of an \<open>AppendSOS\<close> object that \<open>log_results\<close> reads.
\<close>

record append_sos =
  valid_list :: "string list"
  invalid_list :: "string list"

text \<open>
  \<open>log_results\<close>: the loop extends the two totals by the lists of each result,
  in the order of \<open>results\<close> (the order of \<open>COMM.gather\<close>: ascending rank).
\<close>

definition extend_totals ::
  "append_sos \<Rightarrow> string list \<times> string list \<Rightarrow> string list \<times> string list" where
  "extend_totals r st =
     (case st of (total_valid_list, total_invalid_list) \<Rightarrow>
        (total_valid_list @ valid_list r, total_invalid_list @ invalid_list r))"

definition total_lists :: "append_sos list \<Rightarrow> string list \<times> string list" where
  "total_lists results = fold extend_totals results ([], [])"

definition log_results :: "logger \<Rightarrow> append_sos list \<Rightarrow> logger" where
  "log_results logger results =
     (case total_lists results of
        (total_valid_list, total_invalid_list) \<Rightarrow>
          logger @
          [''total valid: '' @ str (int (length total_valid_list)),
           ''total invalid: '' @ str (int (length total_invalid_list)),
           '''',
           ''valid reaches:'',
           join '', '' total_valid_list,
           '''',
           ''invalid reaches:'',
           join '', '' total_invalid_list,
           ''''])"

text \<open>The line that \<open>log_reaches\<close> writes for one item of the plan.\<close>

definition rank_line :: "int \<times> string list \<Rightarrow> string" where
  "rank_line item = str (fst item) @ ''   Reach count:    '' @ str (int (length (snd item)))"

section \<open>The worker sessions\<close>

text \<open>
  Modelled from the spec: the class \<open>AppendSOS\<close> (\<open>app/AppendSOS.py\<close>) is not
  part of the sources at hand. After the spec (WorkerSession), \<open>append()\<close> goes
  through the assigned keys in order and classifies each one as valid or
  invalid, and both lists keep the processing order. \<open>is_valid\<close> is the
  classification of the processing unit.
\<close>

definition append_session :: "(string \<Rightarrow> bool) \<Rightarrow> string list \<Rightarrow> append_sos" where
  "append_session is_valid reach_list =
     \<lparr>valid_list = filter is_valid reach_list,
      invalid_list = filter (\<lambda>reach. \<not> is_valid reach) reach_list\<rparr>"

text \<open>
  Lines 31 to 37 of \<open>run\<close>, the ranks taken one after the other: every rank
  reads \<open>reach_dict[rank]\<close> from the broadcast plan and runs its session, and
  \<open>COMM.gather\<close> hands rank 0 the results in ascending rank order.
\<close>

fun run_ranks :: "(string \<Rightarrow> bool) \<Rightarrow> reach_dict \<Rightarrow> int list \<Rightarrow> error + append_sos list" where
  "run_ranks is_valid reach_dict [] = Inr []"
| "run_ranks is_valid reach_dict (rank # ranks) =
     (case dict_getitem reach_dict rank of
        Inl e \<Rightarrow> Inl e
      | Inr reaches \<Rightarrow>
          (case run_ranks is_valid reach_dict ranks of
             Inl e \<Rightarrow> Inl e
           | Inr results \<Rightarrow> Inr (append_session is_valid reaches # results)))"

section \<open>The partition plan of the specification\<close>

text \<open>
  \<open>set_order\<close> enumerates the set of \<open>keys\<close>: every key once, no other element.
  This is all that \<open>list(set(reach_list))\<close> promises.
\<close>

definition set_iteration :: "('a list \<Rightarrow> 'a list) \<Rightarrow> 'a list \<Rightarrow> bool" where
  "set_iteration set_order keys \<longleftrightarrow>
     distinct (set_order keys) \<and> set (set_order keys) = set keys"

text \<open>
  The plan in the words of the specification, to be compared with
  \<open>get_reach_dict\<close>: with \<open>total\<close> keys and \<open>base = total div n\<close>, rank \<open>i\<close> gets
  the \<open>i\<close>-th block of \<open>base\<close> keys, and the \<open>total mod n\<close> keys left after the
  \<open>n\<close> blocks go to the ranks \<open>0, 1, 2, \<dots>\<close> in order, wrapping at \<open>n\<close>.
\<close>

definition partition_plan :: "'a list \<Rightarrow> nat \<Rightarrow> (int \<times> 'a list) list" where
  "partition_plan keys n =
     (let total = length keys; base = total div n
      in map (\<lambda>i. (int i,
                   take base (drop (i * base) keys)
                   @ map (\<lambda>j. keys ! (n * base + j))
                       (filter (\<lambda>j. j mod n = i) [0..<total mod n])))
           [0..<n])"

text \<open>
  The keys that a round-robin walk of \<open>m\<close> steps over \<open>n\<close> ranks, from rank 0
  and from position \<open>c\<close> of the list, gives to rank \<open>k\<close>.
\<close>

definition extras :: "'a list \<Rightarrow> nat \<Rightarrow> nat \<Rightarrow> nat \<Rightarrow> nat \<Rightarrow> 'a list" where
  "extras xs c n m k = map (\<lambda>j. xs ! (c + j)) (filter (\<lambda>j. j mod n = k) [0..<m])"

text \<open>
  The keys of rank \<open>i\<close> in closed form: its block, and one more key for the first
  \<open>total mod n\<close> ranks.
\<close>

definition rank_keys :: "'a list \<Rightarrow> nat \<Rightarrow> nat \<Rightarrow> 'a list" where
  "rank_keys keys n i =
     take (length keys div n) (drop (i * (length keys div n)) keys)
     @ (if i < length keys mod n then [keys ! (n * (length keys div n) + i)] else [])"

section \<open>The two loops of \<open>get_reach_dict\<close>\<close>


lemma spread_remaining_snoc:
  "spread_remaining rl n (js @ [j]) st =
     (case spread_remaining rl n js st of Inl e \<Rightarrow> Inl e | Inr st' \<Rightarrow> spread_remaining rl n [j] st')"
proof (induction rl n js st rule: spread_remaining.induct)
  case (1 rl n st)
  show ?case by simp
next
  case (2 rl n a js d c i)
  show ?case
  proof (cases "dict_getitem d i")
    case (Inl e)
    then show ?thesis by simp
  next
    case (Inr v)
    note v = this
    show ?thesis
    proof (cases "py_index rl c")
      case (Inl e)
      then show ?thesis using v by simp
    next
      case (Inr x)
      then show ?thesis using v 2 by simp
    qed
  qed
qed

lemma py_slice_block: "py_slice xs (int a) (int a + int b) = take b (drop a xs)"
proof -
  have e: "nat (min (int a + int b) (int (length xs))) = min (a + b) (length xs)"
    by (simp add: min_def nat_add_distrib)
  have s: "nat (min (int a) (int (length xs))) = min a (length xs)"
    by (simp add: min_def)
  have "take (min (a + b) (length xs) - min a (length xs)) (drop (min a (length xs)) xs)
          = take b (drop a xs)"
    by (cases "a \<le> length xs") (simp_all add: min_def)
  then show ?thesis
    unfolding py_slice_def Let_def using e s by simp
qed

lemma dict_setitem_fresh: "k \<notin> fst ` set d \<Longrightarrow> dict_setitem d k v = d @ [(k, v)]"
  by (induction d) auto

lemma fold_assign_block:
  "fold (assign_block rl (int b)) (map int [0..<n]) ([], 0)
     = (map (\<lambda>k. (int k, take b (drop (k * b) rl))) [0..<n], int (n * b))"
proof (induction n)
  case 0
  show ?case by simp
next
  case (Suc n)
  let ?d = "map (\<lambda>k. (int k, take b (drop (k * b) rl))) [0..<n]"
  have fresh: "int n \<notin> fst ` set ?d"
    by auto
  have "assign_block rl (int b) (int n) (?d, int (n * b))
          = (?d @ [(int n, take b (drop (n * b) rl))], int (n * b) + int b)"
    unfolding assign_block_def Let_def prod.case
    using py_slice_block [of rl "n * b" b] dict_setitem_fresh [OF fresh] by simp
  then show ?case
    using Suc by (simp add: add.commute)
qed

lemma map_of_int_keys:
  "a \<in> set xs \<Longrightarrow> map_of (map (\<lambda>k. (int k, f k)) xs) (int a) = Some (f a)"
  by (induction xs) auto

lemma dict_getitem_int_keys:
  "a < n \<Longrightarrow> dict_getitem (map (\<lambda>k. (int k, f k)) [0..<n]) (int a) = Inr (f a)"
  by (simp add: dict_getitem_def map_of_int_keys)

lemma dict_setitem_int_keys:
  "distinct xs \<Longrightarrow> a \<in> set xs \<Longrightarrow>
     dict_setitem (map (\<lambda>k. (int k, f k)) xs) (int a) v
       = map (\<lambda>k. (int k, if k = a then v else f k)) xs"
  by (induction xs) auto

lemma py_index_nat: "a < length xs \<Longrightarrow> py_index xs (int a) = Inr (xs ! a)"
  by (simp add: py_index_def)

lemma extras_Suc:
  "extras xs c n (Suc m) k = extras xs c n m k @ (if m mod n = k then [xs ! (c + m)] else [])"
  by (simp add: extras_def)

lemma next_rank:
  "0 < n \<Longrightarrow> (if int (m mod n) = int n - 1 then 0 else int (m mod n) + 1) = int (Suc m mod n)"
  by (auto simp: mod_Suc)

lemma spread_remaining_plan:
  assumes n: "0 < n" and len: "c + m \<le> length rl"
  shows "spread_remaining rl (int n) (map int [0..<m])
           (map (\<lambda>k. (int k, B k)) [0..<n], int c, 0)
         = Inr (map (\<lambda>k. (int k, B k @ extras rl c n m k)) [0..<n], int (c + m), int (m mod n))"
  using len
proof (induction m)
  case 0
  show ?case by (simp add: extras_def)
next
  case (Suc m)
  let ?E = "\<lambda>k. B k @ extras rl c n m k"
  have r: "m mod n < n" using n by simp
  have get: "dict_getitem (map (\<lambda>k. (int k, ?E k)) [0..<n]) (int (m mod n)) = Inr (?E (m mod n))"
    by (rule dict_getitem_int_keys [OF r])
  have idx: "py_index rl (int (c + m)) = Inr (rl ! (c + m))"
  proof (rule py_index_nat)
    show "c + m < length rl" using Suc.prems by simp
  qed
  have set: "dict_setitem (map (\<lambda>k. (int k, ?E k)) [0..<n]) (int (m mod n))
               (?E (m mod n) @ [rl ! (c + m)])
             = map (\<lambda>k. (int k, B k @ extras rl c n (Suc m) k)) [0..<n]"
    using r by (simp add: dict_setitem_int_keys extras_Suc)
  have step: "spread_remaining rl (int n) [int m]
                (map (\<lambda>k. (int k, ?E k)) [0..<n], int (c + m), int (m mod n))
              = Inr (map (\<lambda>k. (int k, B k @ extras rl c n (Suc m) k)) [0..<n],
                     int (c + Suc m), int (Suc m mod n))"
    using get idx set next_rank [OF n, of m] by simp
  have ih: "spread_remaining rl (int n) (map int [0..<m])
              (map (\<lambda>k. (int k, B k)) [0..<n], int c, 0)
            = Inr (map (\<lambda>k. (int k, ?E k)) [0..<n], int (c + m), int (m mod n))"
    using Suc by simp
  have "map int [0..<Suc m] = map int [0..<m] @ [int m]" by simp
  then show ?case
    using spread_remaining_snoc [of rl "int n" "map int [0..<m]" "int m"] ih step
    by (simp only: sum.case)
qed

lemma partition_plan_extras:
  "partition_plan keys n =
     map (\<lambda>i. (int i, take (length keys div n) (drop (i * (length keys div n)) keys)
                     @ extras keys (n * (length keys div n)) n (length keys mod n) i))
       [0..<n]"
  by (simp add: partition_plan_def Let_def extras_def)

lemma divide_reaches_plan:
  assumes n: "0 < n"
  shows "divide_reaches set_order (int n) keys = Inr (partition_plan (set_order keys) n)"
proof -
  let ?rl = "set_order keys"
  let ?T = "length ?rl"
  let ?b = "?T div n"
  let ?B = "\<lambda>k. take ?b (drop (k * ?b) ?rl)"
  have dv: "int ?T div int n = int ?b" by (simp add: zdiv_int)
  have md: "int ?T mod int n = int (?T mod n)" by (simp add: zmod_int)
  have rng: "py_range (int n) = map int [0..<n]" by (simp add: py_range_def)
  have loop1: "fold (assign_block ?rl (int ?b)) (map int [0..<n]) ([], 0)
                 = (map (\<lambda>k. (int k, ?B k)) [0..<n], int (n * ?b))"
    by (rule fold_assign_block)
  have split_T: "n * ?b + ?T mod n = ?T" by simp
  have rem: "int ?T - int (n * ?b) = int (?T mod n)"
    using split_T by linarith
  have rng2: "py_range (int ?T - int (n * ?b)) = map int [0..<?T mod n]"
    unfolding rem by (simp add: py_range_def)
  have loop2: "spread_remaining ?rl (int n) (map int [0..<?T mod n])
                 (map (\<lambda>k. (int k, ?B k)) [0..<n], int (n * ?b), 0)
               = Inr (map (\<lambda>k. (int k, ?B k @ extras ?rl (n * ?b) n (?T mod n) k)) [0..<n],
                      int (n * ?b + ?T mod n), int ((?T mod n) mod n))"
    by (rule spread_remaining_plan [OF n]) simp
  show ?thesis
  proof (cases "?T mod n = 0")
    case True
    have "divide_reaches set_order (int n) keys = Inr (map (\<lambda>k. (int k, ?B k)) [0..<n])"
      unfolding divide_reaches_def Let_def dv md rng loop1 using n True by simp
    then show ?thesis
      using True by (simp add: partition_plan_extras extras_def)
  next
    case False
    have "divide_reaches set_order (int n) keys
            = Inr (map (\<lambda>k. (int k, ?B k @ extras ?rl (n * ?b) n (?T mod n) k)) [0..<n])"
      unfolding divide_reaches_def Let_def dv md rng loop1 prod.case rng2 loop2
      using n False by simp
    then show ?thesis
      by (simp add: partition_plan_extras)
  qed
qed

lemma extras_small:
  "m \<le> n \<Longrightarrow> extras xs c n m k = (if k < m then [xs ! (c + k)] else [])"
proof (induction m)
  case 0
  show ?case by (simp add: extras_def)
next
  case (Suc m)
  then have "m mod n = m" by simp
  with Suc show ?case by (auto simp: extras_Suc)
qed

lemma partition_plan_ranks:
  assumes n: "0 < n"
  shows "partition_plan keys n =
     map (\<lambda>i. (int i, take (length keys div n) (drop (i * (length keys div n)) keys)
                     @ (if i < length keys mod n
                        then [keys ! (n * (length keys div n) + i)] else [])))
       [0..<n]"
proof -
  have "length keys mod n \<le> n" using n by (simp add: less_imp_le)
  then show ?thesis
    by (simp add: partition_plan_extras extras_small)
qed

lemma mset_concat_append:
  "mset (concat (map (\<lambda>i. A i @ B i) xs)) = mset (concat (map A xs)) + mset (concat (map B xs))"
  by (induction xs) simp_all

lemma concat_blocks:
  "concat (map (\<lambda>i. take b (drop (i * b) xs)) [0..<n]) = take (n * b) xs"
proof (induction n)
  case 0
  show ?case by simp
next
  case (Suc n)
  have "take (n * b) xs @ take b (drop (n * b) xs) = take (n * b + b) xs"
    by (simp add: take_add)
  with Suc show ?case by (simp add: add.commute)
qed

lemma concat_singletons:
  "concat (map (\<lambda>i. if i < r then [f i] else []) [0..<n]) = map f [0..<min r n]"
proof (induction n)
  case 0
  show ?case by simp
next
  case (Suc n)
  show ?case
  proof (cases "n < r")
    case True
    then have "min r n = n" "min r (Suc n) = Suc n" by simp_all
    with Suc True show ?thesis by simp
  next
    case False
    then have "min r n = r" "min r (Suc n) = r" by simp_all
    with Suc False show ?thesis by simp
  qed
qed

lemma drop_as_map: "c + r = length xs \<Longrightarrow> map (\<lambda>i. xs ! (c + i)) [0..<r] = drop c xs"
  by (rule nth_equalityI) auto

lemma mset_partition_plan:
  assumes n: "0 < n"
  shows "mset (concat (map snd (partition_plan keys n))) = mset keys"
proof -
  let ?b = "length keys div n"
  let ?r = "length keys mod n"
  have r: "min ?r n = ?r" using n by (simp add: less_imp_le)
  have tot: "n * ?b + ?r = length keys" by simp
  have ex: "concat (map (\<lambda>i. if i < ?r then [keys ! (n * ?b + i)] else []) [0..<n])
              = drop (n * ?b) keys"
    using concat_singletons [of ?r "\<lambda>i. keys ! (n * ?b + i)" n] drop_as_map [OF tot]
    by (simp only: r)
  have "concat (map snd (partition_plan keys n))
          = concat (map (\<lambda>i. take ?b (drop (i * ?b) keys)
                              @ (if i < ?r then [keys ! (n * ?b + i)] else [])) [0..<n])"
    by (simp add: partition_plan_ranks [OF n] comp_def)
  then have "mset (concat (map snd (partition_plan keys n)))
          = mset (take (n * ?b) keys) + mset (drop (n * ?b) keys)"
    using mset_concat_append
            [of "\<lambda>i. take ?b (drop (i * ?b) keys)"
                "\<lambda>i. if i < ?r then [keys ! (n * ?b + i)] else []" "[0..<n]"]
    by (simp only: concat_blocks ex)
  also have "\<dots> = mset keys"
    by (simp only: mset_append [symmetric] append_take_drop_id)
  finally show ?thesis .
qed

lemma block_length:
  assumes "i < n"
  shows "length (take (length keys div n) (drop (i * (length keys div n)) keys)) = length keys div n"
proof -
  let ?b = "length keys div n"
  have "Suc i * ?b \<le> n * ?b" using assms by (intro mult_le_mono1) simp
  also have "\<dots> \<le> length keys" by simp
  finally have "i * ?b + ?b \<le> length keys" by simp
  then show ?thesis by simp
qed

lemma disjoint_of_distinct_concat:
  "distinct (concat (map g xs)) \<Longrightarrow> distinct xs \<Longrightarrow> a \<in> set xs \<Longrightarrow> b \<in> set xs
     \<Longrightarrow> a \<noteq> b \<Longrightarrow> set (g a) \<inter> set (g b) = {}"
  by (induction xs) auto

lemma filter_less_upt: "r \<le> n \<Longrightarrow> filter (\<lambda>k. k < r) [0..<n] = [0..<r]"
proof (induction n)
  case 0
  then show ?case by simp
next
  case (Suc n)
  show ?case
  proof (cases "r = Suc n")
    case True
    have "filter (\<lambda>k. k < Suc n) [0..<Suc n] = [0..<Suc n]"
      by (rule filter_True) simp
    with True show ?thesis by simp
  next
    case False
    with Suc show ?thesis by simp
  qed
qed

section \<open>The aggregation of \<open>log_results\<close>\<close>

lemma fold_extend_totals:
  "fold extend_totals results (vs, ws) =
     (vs @ concat (map valid_list results), ws @ concat (map invalid_list results))"
  by (induction results arbitrary: vs ws) (simp_all add: extend_totals_def)

lemma total_lists_concat:
  "total_lists results = (concat (map valid_list results), concat (map invalid_list results))"
  by (simp add: total_lists_def fold_extend_totals)

text \<open>
  C7. For every sequence of per-rank results, \<open>log_results\<close> accumulates as the
  global valid list the concatenation, in the order of the sequence (ascending
  rank), of the valid lists of the results, each kept in its own order, likewise
  for the invalid list, and the two counts it writes are the lengths of these
  two concatenations.
\<close>

theorem log_results_concat:
  "total_lists results =
     (concat (map valid_list results), concat (map invalid_list results))
   \<and> log_results logger results =
       logger @
       [''total valid: '' @ str (int (length (concat (map valid_list results)))),
        ''total invalid: '' @ str (int (length (concat (map invalid_list results)))),
        '''',
        ''valid reaches:'',
        join '', '' (concat (map valid_list results)),
        '''',
        ''invalid reaches:'',
        join '', '' (concat (map invalid_list results)),
        '''']"
  by (simp add: log_results_def total_lists_concat)

section \<open>The lines of \<open>log_reaches\<close>\<close>

lemma fold_count: "fold (\<lambda>element reach_count. reach_count + 1) value (n::int) = n + int (length value)"
  by (induction "value" arbitrary: n) simp_all

lemma fold_log_rank:
  "fold log_rank reach_dict (logger, n) =
     (logger @ map rank_line reach_dict,
      n + int (sum_list (map (\<lambda>item. length (snd item)) reach_dict)))"
  by (induction reach_dict arbitrary: logger n)
     (simp_all add: log_rank_def info_def fold_count rank_line_def Let_def case_prod_beta)

text \<open>
  C8. For every partition plan, \<open>log_reaches\<close> writes one line per rank of the
  plan, in the order of the plan, of the form
  \<open><rank>   Reach count:    <count>\<close> with the length of the sequence of that
  rank as count, and then one last line \<open>Total reach count: <sum>\<close> with the sum
  of the counts.
\<close>

theorem log_reaches_lines:
  "log_reaches logger reach_dict =
     logger
     @ map (\<lambda>item. str (fst item) @ ''   Reach count:    '' @ str (int (length (snd item))))
         reach_dict
     @ [''Total reach count: ''
        @ str (int (sum_list (map (\<lambda>item. length (snd item)) reach_dict)))]"
  by (simp add: log_reaches_def fold_log_rank info_def rank_line_def)

lemma get_reach_dict_plan:
  assumes "0 < n" and "reach_keys entries = Inr keys"
  shows "get_reach_dict set_order (int n) entries = Inr (partition_plan (set_order keys) n)"
  using assms by (simp add: get_reach_dict_def divide_reaches_plan)

lemma partition_plan_rank_keys:
  "0 < n \<Longrightarrow> partition_plan keys n = map (\<lambda>i. (int i, rank_keys keys n i)) [0..<n]"
  by (simp add: partition_plan_ranks rank_keys_def)

lemma length_rank_keys:
  "i < n \<Longrightarrow> length (rank_keys keys n i)
     = length keys div n + (if i < length keys mod n then 1 else 0)"
  using block_length [of i n keys] by (simp add: rank_keys_def)

lemma plan_entry:
  assumes "0 < n" and "(i, v) \<in> set (partition_plan keys n)"
  shows "\<exists>a<n. i = int a \<and> v = rank_keys keys n a"
  using assms by (auto simp: partition_plan_rank_keys)

lemma plan_getitem:
  assumes "0 < n" and "a < n"
  shows "dict_getitem (partition_plan keys n) (int a) = Inr (rank_keys keys n a)"
  unfolding partition_plan_rank_keys [OF assms(1)]
  by (rule dict_getitem_int_keys [OF assms(2)])

lemma plan_keys: "0 < n \<Longrightarrow> map fst (partition_plan keys n) = map int [0..<n]"
  by (simp add: partition_plan_rank_keys comp_def)

lemma plan_concat:
  "0 < n \<Longrightarrow> concat (map snd (partition_plan keys n)) = concat (map (rank_keys keys n) [0..<n])"
  by (simp add: partition_plan_rank_keys comp_def)

lemma plan_distinct:
  assumes "0 < n" and "distinct keys"
  shows "distinct (concat (map snd (partition_plan keys n)))"
  using mset_partition_plan [OF assms(1), of keys] assms(2)
  by (metis mset_eq_imp_distinct_iff)

lemma plan_set:
  assumes "0 < n"
  shows "set (concat (map snd (partition_plan keys n))) = set keys"
  using mset_partition_plan [OF assms, of keys] by (rule mset_eq_setD)

lemma plan_disjoint:
  assumes n: "0 < n" and d: "distinct keys"
    and iv: "(i, v) \<in> set (partition_plan keys n)"
    and jw: "(j, w) \<in> set (partition_plan keys n)" and ne: "i \<noteq> j"
  shows "set v \<inter> set w = {}"
proof -
  obtain a where a: "a < n" "i = int a" "v = rank_keys keys n a"
    using plan_entry [OF n iv] by blast
  obtain b where b: "b < n" "j = int b" "w = rank_keys keys n b"
    using plan_entry [OF n jw] by blast
  have "distinct (concat (map (rank_keys keys n) [0..<n]))"
    using plan_distinct [OF n d] by (simp only: plan_concat [OF n])
  then have "set (rank_keys keys n a) \<inter> set (rank_keys keys n b) = {}"
    using a(1) b(1) ne a(2) b(2)
    by (intro disjoint_of_distinct_concat [where xs = "[0..<n]"]) auto
  then show ?thesis using a(3) b(3) by simp
qed

lemma plan_balanced:
  assumes n: "0 < n"
    and iv: "(i, v) \<in> set (partition_plan keys n)"
    and jw: "(j, w) \<in> set (partition_plan keys n)"
  shows "length v \<le> length w + 1"
proof -
  obtain a where a: "a < n" "v = rank_keys keys n a"
    using plan_entry [OF n iv] by blast
  obtain b where b: "b < n" "w = rank_keys keys n b"
    using plan_entry [OF n jw] by blast
  show ?thesis
    unfolding a(2) b(2) length_rank_keys [OF a(1)] length_rank_keys [OF b(1)] by simp
qed

lemma plan_member:
  "0 < n \<Longrightarrow> a < n \<Longrightarrow> (int a, rank_keys keys n a) \<in> set (partition_plan keys n)"
  by (auto simp: partition_plan_rank_keys)

lemma rank_keys_disjoint:
  assumes n: "0 < n" and d: "distinct keys" and a: "a < n" and b: "b < n" and ne: "a \<noteq> b"
  shows "set (rank_keys keys n a) \<inter> set (rank_keys keys n b) = {}"
proof -
  have "int a \<noteq> int b" using ne by simp
  then show ?thesis
    using plan_disjoint [OF n d plan_member [OF n a] plan_member [OF n b]] by blast
qed

lemma key_in_some_rank:
  assumes n: "0 < n" and k: "key \<in> set keys"
  shows "\<exists>a<n. key \<in> set (rank_keys keys n a)"
proof -
  have "key \<in> set (concat (map (rank_keys keys n) [0..<n]))"
    using k plan_set [OF n, of keys] by (simp only: plan_concat [OF n])
  then show ?thesis by auto
qed

lemma key_in_one_rank:
  assumes n: "0 < n" and d: "distinct keys" and k: "key \<in> set keys"
  shows "\<exists>!a. a < n \<and> key \<in> set (rank_keys keys n a)"
proof -
  obtain a where a: "a < n" "key \<in> set (rank_keys keys n a)"
    using key_in_some_rank [OF n k] by blast
  have uniq: "i = a" if i: "i < n" and ki: "key \<in> set (rank_keys keys n i)" for i
  proof (rule ccontr)
    assume "i \<noteq> a"
    then have "set (rank_keys keys n i) \<inter> set (rank_keys keys n a) = {}"
      by (rule rank_keys_disjoint [OF n d i a(1)])
    then show False
      using ki a(2) by (auto simp: disjoint_iff)
  qed
  show ?thesis
  proof (rule ex1I [of _ a])
    show "a < n \<and> key \<in> set (rank_keys keys n a)" using a by simp
  next
    fix i assume "i < n \<and> key \<in> set (rank_keys keys n i)"
    then show "i = a" using uniq by simp
  qed
qed

lemma plan_key_once:
  assumes n: "0 < n" and d: "distinct keys" and k: "key \<in> set keys"
  shows "\<exists>!i. i < n \<and> (\<exists>v. dict_getitem (partition_plan keys n) (int i) = Inr v \<and> key \<in> set v)"
proof -
  have eq: "(i < n \<and> (\<exists>v. dict_getitem (partition_plan keys n) (int i) = Inr v \<and> key \<in> set v))
              \<longleftrightarrow> (i < n \<and> key \<in> set (rank_keys keys n i))" for i
  proof (cases "i < n")
    case True
    show ?thesis by (simp add: plan_getitem [OF n True])
  next
    case False
    then show ?thesis by simp
  qed
  show ?thesis
    unfolding eq by (rule key_in_one_rank [OF n d k])
qed

lemma plan_rank_pair:
  assumes n: "0 < n" and d: "distinct keys" and i: "i < n" and j: "j < n"
  shows "\<exists>v w. dict_getitem (partition_plan keys n) (int i) = Inr v
           \<and> dict_getitem (partition_plan keys n) (int j) = Inr w
           \<and> (i \<noteq> j \<longrightarrow> set v \<inter> set w = {})
           \<and> length v \<le> length w + 1"
proof (intro exI conjI impI)
  show "dict_getitem (partition_plan keys n) (int i) = Inr (rank_keys keys n i)"
    by (rule plan_getitem [OF n i])
  show "dict_getitem (partition_plan keys n) (int j) = Inr (rank_keys keys n j)"
    by (rule plan_getitem [OF n j])
  show "set (rank_keys keys n i) \<inter> set (rank_keys keys n j) = {}" if "i \<noteq> j"
    by (rule rank_keys_disjoint [OF n d i j that])
  show "length (rank_keys keys n i) \<le> length (rank_keys keys n j) + 1"
    by (simp add: length_rank_keys [OF i] length_rank_keys [OF j])
qed

text \<open>
  C1. For every list of entries whose keys can be derived, every enumeration
  of the set of keys and every worker count \<open>n \<ge> 1\<close>, \<open>get_reach_dict\<close> returns a
  plan with exactly the ranks \<open>0, \<dots>, n - 1\<close>, in which no key occurs twice
  (within a rank or in two ranks), the keys of all ranks together are exactly
  the set of derived keys, every derived key is held by exactly one rank, the
  sequences of two different ranks are disjoint, and the counts of any two
  ranks differ by at most 1.
\<close>

theorem get_reach_dict_partition:
  assumes "0 < n" and "reach_keys entries = Inr keys" and "set_iteration set_order keys"
  shows "\<exists>d. get_reach_dict set_order (int n) entries = Inr d
           \<and> map fst d = map int [0..<n]
           \<and> distinct (concat (map snd d))
           \<and> set (concat (map snd d)) = set keys
           \<and> (\<forall>key\<in>set keys.
                 \<exists>!i. i < n \<and> (\<exists>v. dict_getitem d (int i) = Inr v \<and> key \<in> set v))
           \<and> (\<forall>i<n. \<forall>j<n. \<exists>v w.
                 dict_getitem d (int i) = Inr v \<and> dict_getitem d (int j) = Inr w
                 \<and> (i \<noteq> j \<longrightarrow> set v \<inter> set w = {})
                 \<and> length v \<le> length w + 1)
           \<and> (\<forall>i v j w. (i, v) \<in> set d \<and> (j, w) \<in> set d \<and> i \<noteq> j \<longrightarrow> set v \<inter> set w = {})
           \<and> (\<forall>i v j w. (i, v) \<in> set d \<and> (j, w) \<in> set d \<longrightarrow> length v \<le> length w + 1)"
proof -
  let ?rl = "set_order keys"
  let ?d = "partition_plan ?rl n"
  note n = assms(1)
  have dist: "distinct ?rl" and st: "set ?rl = set keys"
    using assms(3) by (simp_all add: set_iteration_def)
  have ret: "get_reach_dict set_order (int n) entries = Inr ?d"
    by (rule get_reach_dict_plan [OF assms(1,2)])
  have ranks: "map fst ?d = map int [0..<n]"
    by (rule plan_keys [OF n])
  have nodup: "distinct (concat (map snd ?d))"
    by (rule plan_distinct [OF n dist])
  have every: "set (concat (map snd ?d)) = set keys"
    unfolding plan_set [OF n] by (rule st)
  have once: "\<forall>key\<in>set keys.
                 \<exists>!i. i < n \<and> (\<exists>v. dict_getitem ?d (int i) = Inr v \<and> key \<in> set v)"
  proof (rule ballI)
    fix key assume "key \<in> set keys"
    then have "key \<in> set ?rl" by (simp only: st)
    then show "\<exists>!i. i < n \<and> (\<exists>v. dict_getitem ?d (int i) = Inr v \<and> key \<in> set v)"
      by (rule plan_key_once [OF n dist])
  qed
  have pairs: "\<forall>i<n. \<forall>j<n. \<exists>v w.
                 dict_getitem ?d (int i) = Inr v \<and> dict_getitem ?d (int j) = Inr w
                 \<and> (i \<noteq> j \<longrightarrow> set v \<inter> set w = {})
                 \<and> length v \<le> length w + 1"
    by (intro allI impI plan_rank_pair [OF n dist])
  have disj: "\<forall>i v j w. (i, v) \<in> set ?d \<and> (j, w) \<in> set ?d \<and> i \<noteq> j \<longrightarrow> set v \<inter> set w = {}"
    using plan_disjoint [OF n dist] by blast
  have bal: "\<forall>i v j w. (i, v) \<in> set ?d \<and> (j, w) \<in> set ?d \<longrightarrow> length v \<le> length w + 1"
    using plan_balanced [OF n] by blast
  show ?thesis
    by (intro exI [of _ ?d] conjI ret ranks nodup every once pairs disj bal)
qed

theorem get_reach_dict_partition_witness:
  "0 < (3::nat)
   \<and> reach_keys [''1_1_a'', ''2_2_a'', ''3_3_a'', ''4_4_a'', ''5_5_a'', ''1_1_b'']
       = Inr [''1_1'', ''2_2'', ''3_3'', ''4_4'', ''5_5'', ''1_1'']
   \<and> set_iteration remdups [''1_1'', ''2_2'', ''3_3'', ''4_4'', ''5_5'', ''1_1'']
   \<and> (\<exists>d. get_reach_dict remdups (int 3)
              [''1_1_a'', ''2_2_a'', ''3_3_a'', ''4_4_a'', ''5_5_a'', ''1_1_b''] = Inr d
           \<and> map fst d = map int [0..<3]
           \<and> distinct (concat (map snd d))
           \<and> set (concat (map snd d)) = set [''1_1'', ''2_2'', ''3_3'', ''4_4'', ''5_5'', ''1_1'']
           \<and> (\<forall>key\<in>set [''1_1'', ''2_2'', ''3_3'', ''4_4'', ''5_5'', ''1_1''].
                 \<exists>!i. i < 3 \<and> (\<exists>v. dict_getitem d (int i) = Inr v \<and> key \<in> set v))
           \<and> (\<forall>i<3. \<forall>j<3. \<exists>v w.
                 dict_getitem d (int i) = Inr v \<and> dict_getitem d (int j) = Inr w
                 \<and> (i \<noteq> j \<longrightarrow> set v \<inter> set w = {})
                 \<and> length v \<le> length w + 1)
           \<and> (\<forall>i v j w. (i, v) \<in> set d \<and> (j, w) \<in> set d \<and> i \<noteq> j \<longrightarrow> set v \<inter> set w = {})
           \<and> (\<forall>i v j w. (i, v) \<in> set d \<and> (j, w) \<in> set d \<longrightarrow> length v \<le> length w + 1))"
proof -
  have h1: "0 < (3::nat)" by simp
  have h2: "reach_keys [''1_1_a'', ''2_2_a'', ''3_3_a'', ''4_4_a'', ''5_5_a'', ''1_1_b'']
              = Inr [''1_1'', ''2_2'', ''3_3'', ''4_4'', ''5_5'', ''1_1'']"
    by code_simp
  have h3: "set_iteration remdups [''1_1'', ''2_2'', ''3_3'', ''4_4'', ''5_5'', ''1_1'']"
    by (simp only: set_iteration_def distinct_remdups set_remdups simp_thms)
  show ?thesis
    by (intro conjI h1 h2 h3 get_reach_dict_partition [OF h1 h2 h3])
qed

lemma py_range_int: "py_range (int m) = map int [0..<m]"
  by (simp add: py_range_def)

lemma count_extra_ranks:
  assumes n: "0 < n"
  shows "length (filter (\<lambda>item. length (snd item) = length keys div n + 1) (partition_plan keys n))
           = length keys mod n"
proof -
  let ?r = "length keys mod n"
  have r: "?r \<le> n" using n by (simp add: less_imp_le)
  have "filter (\<lambda>i. length (rank_keys keys n i) = length keys div n + 1) [0..<n]
          = filter (\<lambda>i. i < ?r) [0..<n]"
    by (rule filter_cong) (auto simp: length_rank_keys)
  then show ?thesis
    by (simp add: partition_plan_rank_keys [OF n] filter_map comp_def filter_less_upt [OF r])
qed

lemma count_base_ranks:
  assumes n: "0 < n"
  shows "length (filter (\<lambda>item. length (snd item) = length keys div n) (partition_plan keys n))
           = n - length keys mod n"
proof -
  let ?r = "length keys mod n"
  have r: "?r \<le> n" using n by (simp add: less_imp_le)
  have "filter (\<lambda>i. length (rank_keys keys n i) = length keys div n) [0..<n]
          = filter (\<lambda>i. \<not> i < ?r) [0..<n]"
    by (rule filter_cong) (auto simp: length_rank_keys)
  moreover have "length (filter (\<lambda>i. \<not> i < ?r) [0..<n]) + length (filter (\<lambda>i. i < ?r) [0..<n]) = n"
    using sum_length_filter_compl [of "\<lambda>i. i < ?r" "[0..<n]"] by simp
  ultimately show ?thesis
    by (simp add: partition_plan_rank_keys [OF n] filter_map comp_def filter_less_upt [OF r])
qed

lemma walk_wraps:
  assumes n: "0 < n" and len: "c + m \<le> length rl"
  shows "\<exists>d. spread_remaining rl (int n) (py_range (int m))
               (map (\<lambda>k. (int k, [])) [0..<n], int c, 0)
             = Inr (d, int (c + m), int (m mod n))
           \<and> (\<forall>k<n. dict_getitem d (int k)
                  = Inr (map (\<lambda>j. rl ! (c + j)) (filter (\<lambda>j. j mod n = k) [0..<m])))"
proof -
  let ?d = "map (\<lambda>k. (int k, [] @ extras rl c n m k)) [0..<n]"
  have "spread_remaining rl (int n) (py_range (int m))
          (map (\<lambda>k. (int k, [])) [0..<n], int c, 0) = Inr (?d, int (c + m), int (m mod n))"
    unfolding py_range_int by (rule spread_remaining_plan [OF n len])
  moreover have "\<forall>k<n. dict_getitem ?d (int k)
                  = Inr (map (\<lambda>j. rl ! (c + j)) (filter (\<lambda>j. j mod n = k) [0..<m]))"
    using dict_getitem_int_keys [of _ n "\<lambda>k. [] @ extras rl c n m k"]
    by (simp add: extras_def)
  ultimately show ?thesis by blast
qed

text \<open>
  C2. For every worker count \<open>n \<ge> 1\<close> and every list of \<open>T\<close> enumerated keys,
  \<open>get_reach_dict\<close> returns the plan of the specification: rank \<open>k\<close> gets its
  block of \<open>T div n\<close> keys, and the ranks \<open>k < T mod n\<close>, taken from rank 0
  upwards, get one more key each (the key at position \<open>n * (T div n) + k\<close>). So
  exactly \<open>T mod n\<close> ranks hold \<open>T div n + 1\<close> keys and the other
  \<open>n - T mod n\<close> ranks hold \<open>T div n\<close> keys. The walk of the second loop wraps at
  \<open>n\<close>: after \<open>m\<close> steps from rank 0 it stands at rank \<open>m mod n\<close>, and rank \<open>k\<close>
  has received the keys of the steps \<open>j\<close> with \<open>j mod n = k\<close>.
\<close>

theorem get_reach_dict_counts:
  assumes "0 < n" and "reach_keys entries = Inr keys"
  shows "\<exists>d. get_reach_dict set_order (int n) entries = Inr d
           \<and> d = partition_plan (set_order keys) n
           \<and> (\<forall>k<n. dict_getitem d (int k)
                  = Inr (take (length (set_order keys) div n)
                           (drop (k * (length (set_order keys) div n)) (set_order keys))
                         @ (if k < length (set_order keys) mod n
                            then [set_order keys ! (n * (length (set_order keys) div n) + k)]
                            else [])))
           \<and> (\<forall>k<n. \<exists>v. dict_getitem d (int k) = Inr v
                  \<and> length v = length (set_order keys) div n
                                + (if k < length (set_order keys) mod n then 1 else 0))
           \<and> length (filter (\<lambda>item. length (snd item) = length (set_order keys) div n + 1) d)
               = length (set_order keys) mod n
           \<and> length (filter (\<lambda>item. length (snd item) = length (set_order keys) div n) d)
               = n - length (set_order keys) mod n
           \<and> (\<forall>m c. c + m \<le> length rl \<longrightarrow>
                 (\<exists>d'. spread_remaining rl (int n) (py_range (int m))
                          (map (\<lambda>k. (int k, [])) [0..<n], int c, 0)
                        = Inr (d', int (c + m), int (m mod n))
                      \<and> (\<forall>k<n. dict_getitem d' (int k)
                             = Inr (map (\<lambda>j. rl ! (c + j)) (filter (\<lambda>j. j mod n = k) [0..<m])))))"
proof -
  let ?rl = "set_order keys"
  let ?d = "partition_plan ?rl n"
  have ret: "get_reach_dict set_order (int n) entries = Inr ?d"
    by (rule get_reach_dict_plan [OF assms])
  have get: "\<forall>k<n. dict_getitem ?d (int k)
                  = Inr (take (length ?rl div n) (drop (k * (length ?rl div n)) ?rl)
                         @ (if k < length ?rl mod n
                            then [?rl ! (n * (length ?rl div n) + k)] else []))"
    using plan_getitem [OF assms(1), of _ ?rl] by (simp add: rank_keys_def)
  have len: "\<forall>k<n. \<exists>v. dict_getitem ?d (int k) = Inr v
                  \<and> length v = length ?rl div n + (if k < length ?rl mod n then 1 else 0)"
    using plan_getitem [OF assms(1), of _ ?rl] length_rank_keys [of _ n ?rl] by simp
  have walk: "\<forall>m c. c + m \<le> length rl \<longrightarrow>
                 (\<exists>d'. spread_remaining rl (int n) (py_range (int m))
                          (map (\<lambda>k. (int k, [])) [0..<n], int c, 0)
                        = Inr (d', int (c + m), int (m mod n))
                      \<and> (\<forall>k<n. dict_getitem d' (int k)
                             = Inr (map (\<lambda>j. rl ! (c + j)) (filter (\<lambda>j. j mod n = k) [0..<m]))))"
    using walk_wraps [OF assms(1)] by blast
  show ?thesis
    using ret get len count_extra_ranks [OF assms(1), of ?rl]
      count_base_ranks [OF assms(1), of ?rl] walk
    by blast
qed

theorem get_reach_dict_counts_witness:
  "0 < (3::nat)
   \<and> reach_keys [''1_1_a'', ''2_2_a'', ''3_3_a'', ''4_4_a'', ''5_5_a'']
       = Inr [''1_1'', ''2_2'', ''3_3'', ''4_4'', ''5_5'']
   \<and> (\<exists>d. get_reach_dict remdups (int 3) [''1_1_a'', ''2_2_a'', ''3_3_a'', ''4_4_a'', ''5_5_a'']
             = Inr d
           \<and> length (filter (\<lambda>item. length (snd item)
                    = length (remdups [''1_1'', ''2_2'', ''3_3'', ''4_4'', ''5_5'']) div 3 + 1) d)
               = length (remdups [''1_1'', ''2_2'', ''3_3'', ''4_4'', ''5_5'']) mod 3)"
proof -
  have h1: "0 < (3::nat)" by simp
  have h2: "reach_keys [''1_1_a'', ''2_2_a'', ''3_3_a'', ''4_4_a'', ''5_5_a'']
              = Inr [''1_1'', ''2_2'', ''3_3'', ''4_4'', ''5_5'']"
    by code_simp
  show ?thesis
    using h1 h2 get_reach_dict_counts [OF h1 h2, of remdups "[]"] by blast
qed

lemma plan_getitem_outside:
  assumes "0 < n" and "rank < 0 \<or> int n \<le> rank"
  shows "dict_getitem (partition_plan keys n) rank = Inl KeyError"
proof -
  have "rank \<notin> set (map fst (partition_plan keys n))"
    using assms(2) by (auto simp: plan_keys [OF assms(1)])
  then have "map_of (partition_plan keys n) rank = None"
    by (simp add: map_of_eq_None_iff)
  then show ?thesis by (simp add: dict_getitem_def)
qed

text \<open>
  C10. For every worker count \<open>n \<ge> 1\<close> and every list of entries whose keys can
  be derived, the dictionary that \<open>get_reach_dict\<close> returns has exactly the keys
  \<open>0, \<dots>, n - 1\<close>, in this order and each once, so \<open>reach_dict[rank]\<close> succeeds
  for every rank \<open>0 \<le> rank < n\<close> (and raises \<open>KeyError\<close> for every other
  integer).
\<close>

theorem get_reach_dict_ranks:
  assumes "0 < n" and "reach_keys entries = Inr keys"
  shows "\<exists>d. get_reach_dict set_order (int n) entries = Inr d
           \<and> map fst d = py_range (int n)
           \<and> map fst d = map int [0..<n]
           \<and> (\<forall>rank. 0 \<le> rank \<and> rank < int n \<longrightarrow> (\<exists>reaches. dict_getitem d rank = Inr reaches))
           \<and> (\<forall>rank. rank < 0 \<or> int n \<le> rank \<longrightarrow> dict_getitem d rank = Inl KeyError)"
proof -
  let ?d = "partition_plan (set_order keys) n"
  have ret: "get_reach_dict set_order (int n) entries = Inr ?d"
    by (rule get_reach_dict_plan [OF assms])
  have keys: "map fst ?d = map int [0..<n]"
    by (rule plan_keys [OF assms(1)])
  have inside: "\<exists>reaches. dict_getitem ?d rank = Inr reaches" if "0 \<le> rank \<and> rank < int n" for rank
  proof -
    from that have "nat rank < n" and "rank = int (nat rank)" by linarith+
    then show ?thesis
      using plan_getitem [OF assms(1), of "nat rank" "set_order keys"] by auto
  qed
  have outside: "\<forall>rank. rank < 0 \<or> int n \<le> rank \<longrightarrow> dict_getitem ?d rank = Inl KeyError"
    using plan_getitem_outside [OF assms(1)] by blast
  show ?thesis
    using ret keys inside outside by (auto simp: py_range_int)
qed

theorem get_reach_dict_ranks_witness:
  "0 < (2::nat)
   \<and> reach_keys [''1_2_a'', ''1_2_b'', ''3_4_a''] = Inr [''1_2'', ''1_2'', ''3_4'']
   \<and> (\<exists>d. get_reach_dict remdups (int 2) [''1_2_a'', ''1_2_b'', ''3_4_a''] = Inr d
           \<and> map fst d = py_range (int 2)
           \<and> (\<forall>rank. 0 \<le> rank \<and> rank < int 2 \<longrightarrow> (\<exists>reaches. dict_getitem d rank = Inr reaches)))"
proof -
  have h1: "0 < (2::nat)" by simp
  have h2: "reach_keys [''1_2_a'', ''1_2_b'', ''3_4_a''] = Inr [''1_2'', ''1_2'', ''3_4'']"
    by code_simp
  show ?thesis
    using h1 h2 get_reach_dict_ranks [OF h1 h2, of remdups] by blast
qed

lemma run_ranks_all:
  "(\<And>rank. rank \<in> set ranks \<Longrightarrow> dict_getitem d rank = Inr (f rank)) \<Longrightarrow>
     run_ranks is_valid d ranks = Inr (map (\<lambda>rank. append_session is_valid (f rank)) ranks)"
  by (induction ranks) simp_all

lemma str_zero: "str 0 = ''0''"
  by (simp add: str_def str_nat.simps [of 0] digit_char_def)

lemma rank_keys_few:
  "length keys < n \<Longrightarrow> rank_keys keys n k = (if k < length keys then [keys ! k] else [])"
  by (simp add: rank_keys_def)

text \<open>
  C6. When the enumerated keys are fewer than the worker count \<open>n\<close>,
  \<open>get_reach_dict\<close> returns a plan (no exception): rank \<open>k\<close> holds the one key at
  position \<open>k\<close> when there is one and the empty list otherwise, so some rank
  holds an empty list. With no key at all every rank holds the empty list,
  the gathered sessions have empty valid and invalid lists, and \<open>log_results\<close>
  reports 0 valid and 0 invalid.
\<close>

theorem get_reach_dict_few_keys:
  assumes "0 < n" and "reach_keys entries = Inr keys" and "length (set_order keys) < n"
  shows "\<exists>d. get_reach_dict set_order (int n) entries = Inr d
           \<and> (\<forall>k<n. dict_getitem d (int k)
                  = Inr (if k < length (set_order keys) then [set_order keys ! k] else []))
           \<and> (\<exists>k<n. dict_getitem d (int k) = Inr [])
           \<and> (length (set_order keys) = 0 \<longrightarrow>
                 (\<forall>k<n. dict_getitem d (int k) = Inr [])
                 \<and> (\<exists>results. run_ranks is_valid d (py_range (int n)) = Inr results
                       \<and> total_lists results = ([], [])
                       \<and> log_results logger results
                           = logger @ [''total valid: 0'', ''total invalid: 0'', '''',
                                       ''valid reaches:'', '''', '''',
                                       ''invalid reaches:'', '''', '''']))"
proof -
  let ?rl = "set_order keys"
  let ?d = "partition_plan ?rl n"
  have ret: "get_reach_dict set_order (int n) entries = Inr ?d"
    by (rule get_reach_dict_plan [OF assms(1,2)])
  have get: "dict_getitem ?d (int k) = Inr (if k < length ?rl then [?rl ! k] else [])"
    if "k < n" for k
    using plan_getitem [OF assms(1) that, of ?rl] by (simp only: rank_keys_few [OF assms(3)])
  have last: "dict_getitem ?d (int (n - 1)) = Inr []"
    using get [of "n - 1"] assms(1,3) by simp
  have some: "\<exists>k<n. dict_getitem ?d (int k) = Inr []"
    using last assms(1) by (intro exI [of _ "n - 1"]) simp
  have none: "(\<forall>k<n. dict_getitem ?d (int k) = Inr [])
              \<and> (\<exists>results. run_ranks is_valid ?d (py_range (int n)) = Inr results
                    \<and> total_lists results = ([], [])
                    \<and> log_results logger results
                        = logger @ [''total valid: 0'', ''total invalid: 0'', '''',
                                    ''valid reaches:'', '''', '''',
                                    ''invalid reaches:'', '''', ''''])"
    if empty: "length ?rl = 0"
  proof -
    have all: "\<forall>k<n. dict_getitem ?d (int k) = Inr []"
      using get empty by simp
    let ?results = "map (\<lambda>rank::int. append_session is_valid []) (py_range (int n))"
    have "run_ranks is_valid ?d (py_range (int n)) = Inr ?results"
    proof (rule run_ranks_all)
      fix rank assume "rank \<in> set (py_range (int n))"
      then obtain k where "k < n" "rank = int k" by (auto simp: py_range_int)
      then show "dict_getitem ?d rank = Inr []" using all by simp
    qed
    moreover have tl: "total_lists ?results = ([], [])"
      by (simp add: total_lists_concat append_session_def)
    moreover have "log_results logger ?results
                     = logger @ [''total valid: 0'', ''total invalid: 0'', '''',
                                 ''valid reaches:'', '''', '''',
                                 ''invalid reaches:'', '''', '''']"
      by (simp add: log_results_def tl str_zero)
    ultimately show ?thesis using all by blast
  qed
  show ?thesis
    using ret get some none by blast
qed

theorem get_reach_dict_few_keys_witness:
  "0 < (4::nat) \<and> reach_keys [] = Inr [] \<and> length (remdups ([]::string list)) < 4
   \<and> (\<exists>d. get_reach_dict remdups (int 4) [] = Inr d
          \<and> (\<forall>k<4. dict_getitem d (int k) = Inr [])
          \<and> (\<exists>results. run_ranks (\<lambda>reach. True) d (py_range (int 4)) = Inr results
                \<and> total_lists results = ([], [])
                \<and> log_results [] results
                     = [''total valid: 0'', ''total invalid: 0'', '''',
                        ''valid reaches:'', '''', '''', ''invalid reaches:'', '''', '''']))"
proof -
  have h1: "0 < (4::nat)" by simp
  have h2: "reach_keys [] = Inr []" by simp
  have h3: "length (remdups ([]::string list)) < 4" by simp
  have h4: "length (remdups ([]::string list)) = 0" by simp
  show ?thesis
    using h1 h2 h3 h4
      get_reach_dict_few_keys
        [where n = 4 and entries = "[]" and keys = "[]" and set_order = remdups
           and is_valid = "\<lambda>reach. True" and logger = "[]", OF h1 h2 h3]
    by (simp only: append_Nil) blast
qed

lemma split_acc_tokens:
  "split_acc c cur s =
     (cur @ takeWhile (\<lambda>x. x \<noteq> c) s)
     # (if c \<in> set s then split_acc c [] (tl (dropWhile (\<lambda>x. x \<noteq> c) s)) else [])"
  by (induction s arbitrary: cur) auto

lemma split_acc_hd: "\<exists>rest. split_acc c [] s = takeWhile (\<lambda>x. x \<noteq> c) s # rest"
  using split_acc_tokens [of c "[]" s] by simp

lemma split_no_sep:
  assumes "c \<notin> set s"
  shows "split s c = [s]"
proof -
  have "takeWhile (\<lambda>x. x \<noteq> c) s = s"
    using assms by (auto simp: takeWhile_eq_all_conv)
  then show ?thesis
    unfolding split_def using assms by (subst split_acc_tokens) simp
qed

lemma split_two_tokens:
  assumes "c \<in> set s"
  shows "\<exists>rest. split s c
           = takeWhile (\<lambda>x. x \<noteq> c) s
             # takeWhile (\<lambda>x. x \<noteq> c) (tl (dropWhile (\<lambda>x. x \<noteq> c) s)) # rest"
proof -
  obtain rest where
    "split_acc c [] (tl (dropWhile (\<lambda>x. x \<noteq> c) s))
       = takeWhile (\<lambda>x. x \<noteq> c) (tl (dropWhile (\<lambda>x. x \<noteq> c) s)) # rest"
    using split_acc_hd by blast
  then show ?thesis
    using assms split_acc_tokens [of c "[]" s] by (simp add: split_def)
qed

lemma reach_key_of_tokens:
  "split name CHR ''_'' = a # b # rest \<Longrightarrow> reach_key name = Inr (a @ ''_'' @ b)"
  by (simp add: reach_key_def py_index_def)

lemma reach_key_two_tokens:
  assumes "CHR ''_'' \<in> set name"
  shows "reach_key name
           = Inr (takeWhile (\<lambda>x. x \<noteq> CHR ''_'') name @ ''_''
                  @ takeWhile (\<lambda>x. x \<noteq> CHR ''_'')
                      (tl (dropWhile (\<lambda>x. x \<noteq> CHR ''_'') name)))"
  using split_two_tokens [OF assms] reach_key_of_tokens by blast

lemma reach_key_no_sep:
  assumes "CHR ''_'' \<notin> set name"
  shows "reach_key name = Inl IndexError"
  using split_no_sep [OF assms] by (simp add: reach_key_def py_index_def)

lemma reach_key_Inr_iff: "(\<exists>key. reach_key name = Inr key) \<longleftrightarrow> CHR ''_'' \<in> set name"
proof (cases "CHR ''_'' \<in> set name")
  case True
  then show ?thesis using reach_key_two_tokens by blast
next
  case False
  then show ?thesis by (simp add: reach_key_no_sep)
qed

lemma reach_key_error:
  assumes "reach_key name = Inl e"
  shows "e = IndexError \<and> CHR ''_'' \<notin> set name"
proof (cases "CHR ''_'' \<in> set name")
  case True
  then show ?thesis using reach_key_two_tokens [of name] assms by simp
next
  case False
  then show ?thesis using reach_key_no_sep [of name] assms by simp
qed

lemma reach_keys_Inr_iff:
  "(\<exists>keys. reach_keys entries = Inr keys) \<longleftrightarrow> (\<forall>name\<in>set entries. CHR ''_'' \<in> set name)"
proof (induction entries)
  case Nil
  show ?case by simp
next
  case (Cons name entries)
  show ?case
  proof (cases "CHR ''_'' \<in> set name")
    case True
    then obtain key where "reach_key name = Inr key"
      using reach_key_Inr_iff by blast
    then show ?thesis
      using True Cons by (auto split: sum.splits)
  next
    case False
    then show ?thesis
      by (simp add: reach_key_no_sep)
  qed
qed

lemma reach_keys_error:
  "reach_keys entries = Inl e \<Longrightarrow> e = IndexError"
proof (induction entries)
  case Nil
  then show ?case by simp
next
  case (Cons name entries)
  then show ?case
    by (auto split: sum.splits dest: reach_key_error)
qed

lemma reach_keys_IndexError:
  assumes "name \<in> set entries" and "CHR ''_'' \<notin> set name"
  shows "reach_keys entries = Inl IndexError"
proof (cases "reach_keys entries")
  case (Inl e)
  then show ?thesis using reach_keys_error by blast
next
  case (Inr keys)
  then have "\<forall>name\<in>set entries. CHR ''_'' \<in> set name"
    using reach_keys_Inr_iff by blast
  with assms show ?thesis by blast
qed

lemma length_split: "length (split name c) = Suc (length (filter (\<lambda>x. x = c) name))"
proof -
  have "length (split_acc c cur s) = Suc (length (filter (\<lambda>x. x = c) s))" for cur s
    by (induction s arbitrary: cur) auto
  then show ?thesis by (simp add: split_def)
qed

lemma two_tokens_iff: "2 \<le> length (split name c) \<longleftrightarrow> c \<in> set name"
proof -
  have "Suc 0 \<le> length (filter (\<lambda>x. x = c) name) \<longleftrightarrow> filter (\<lambda>x. x = c) name \<noteq> []"
    by (cases "filter (\<lambda>x. x = c) name") simp_all
  also have "\<dots> \<longleftrightarrow> c \<in> set name"
    by (auto simp: filter_empty_conv)
  finally show ?thesis by (simp add: length_split)
qed

text \<open>
  C9. Key derivation is partial: for a name without \<open>_\<close> the split has the one
  token \<open>name\<close>, reading the second token raises \<open>IndexError\<close>, and
  \<open>get_reach_dict\<close> raises \<open>IndexError\<close> as soon as one entry has no \<open>_\<close>,
  whatever the worker count. The key of a name exists exactly when the name
  contains \<open>_\<close>, that is when its split has at least two tokens, and the list
  comprehension returns exactly when every entry does.
\<close>

theorem reach_key_partial:
  "(CHR ''_'' \<notin> set name \<longrightarrow>
      split name CHR ''_'' = [name] \<and> reach_key name = Inl IndexError)
   \<and> ((\<exists>key. reach_key name = Inr key) \<longleftrightarrow> 2 \<le> length (split name CHR ''_''))
   \<and> (2 \<le> length (split name CHR ''_'') \<longleftrightarrow> CHR ''_'' \<in> set name)
   \<and> (name \<in> set entries \<and> CHR ''_'' \<notin> set name \<longrightarrow>
        get_reach_dict set_order comm_size entries = Inl IndexError)
   \<and> ((\<exists>keys. reach_keys entries = Inr keys)
        \<longleftrightarrow> (\<forall>name\<in>set entries. 2 \<le> length (split name CHR ''_'')))"
proof -
  have a: "CHR ''_'' \<notin> set name \<longrightarrow>
             split name CHR ''_'' = [name] \<and> reach_key name = Inl IndexError"
    using split_no_sep reach_key_no_sep by blast
  have b: "(\<exists>key. reach_key name = Inr key) \<longleftrightarrow> 2 \<le> length (split name CHR ''_'')"
    by (simp only: reach_key_Inr_iff two_tokens_iff)
  have c: "2 \<le> length (split name CHR ''_'') \<longleftrightarrow> CHR ''_'' \<in> set name"
    by (rule two_tokens_iff)
  have d: "name \<in> set entries \<and> CHR ''_'' \<notin> set name \<longrightarrow>
             get_reach_dict set_order comm_size entries = Inl IndexError"
    using reach_keys_IndexError [of name entries] by (auto simp: get_reach_dict_def)
  have e: "(\<exists>keys. reach_keys entries = Inr keys)
             \<longleftrightarrow> (\<forall>name\<in>set entries. 2 \<le> length (split name CHR ''_''))"
    by (simp only: reach_keys_Inr_iff two_tokens_iff)
  show ?thesis using a b c d e by blast
qed

theorem reach_key_partial_witness:
  "CHR ''_'' \<notin> set ''abc.csv''
   \<and> ''abc.csv'' \<in> set [''1_2_a'', ''abc.csv'']
   \<and> split ''abc.csv'' CHR ''_'' = [''abc.csv'']
   \<and> reach_key ''abc.csv'' = Inl IndexError
   \<and> get_reach_dict remdups 2 [''1_2_a'', ''abc.csv''] = Inl IndexError"
proof -
  have h1: "CHR ''_'' \<notin> set ''abc.csv''" by simp
  have h2: "''abc.csv'' \<in> set [''1_2_a'', ''abc.csv'']" by simp
  show ?thesis
    using h1 h2 reach_key_partial [of "''abc.csv''" "[''1_2_a'', ''abc.csv'']" remdups 2]
    by blast
qed

lemma reach_keys_set:
  "reach_keys entries = Inr keys \<Longrightarrow>
     set keys = {key. \<exists>name\<in>set entries. reach_key name = Inr key}"
proof (induction entries arbitrary: keys)
  case Nil
  then show ?case by simp
next
  case (Cons name entries)
  from Cons.prems obtain k ks where k: "reach_key name = Inr k"
    and ks: "reach_keys entries = Inr ks" and keys: "keys = k # ks"
    by (auto split: sum.splits)
  have "set ks = {key. \<exists>name\<in>set entries. reach_key name = Inr key}"
    by (rule Cons.IH [OF ks])
  then show ?case using k keys by auto
qed

lemma count_list_distinct: "distinct xs \<Longrightarrow> x \<in> set xs \<Longrightarrow> count_list xs x = 1"
  by (induction xs) (auto simp: count_list_0_iff)

text \<open>
  C5. The key of a raw identifier is its first two \<open>_\<close>-delimited tokens joined
  by \<open>_\<close>: the text before the first \<open>_\<close>, then \<open>_\<close>, then the text between the
  first \<open>_\<close> and the next one (or the end); \<open>12_34_x.csv\<close> gives \<open>12_34\<close>. Keys
  are deduplicated: in the plan of \<open>get_reach_dict\<close> the key of every entry
  occurs exactly once, and every key of the plan is the key of an entry.
\<close>

theorem reach_key_dedup:
  "(split name CHR ''_'' = a # b # rest \<longrightarrow> reach_key name = Inr (a @ ''_'' @ b))
   \<and> (CHR ''_'' \<in> set name \<longrightarrow>
        reach_key name
          = Inr (takeWhile (\<lambda>x. x \<noteq> CHR ''_'') name @ ''_''
                 @ takeWhile (\<lambda>x. x \<noteq> CHR ''_'')
                     (tl (dropWhile (\<lambda>x. x \<noteq> CHR ''_'') name))))
   \<and> reach_key ''12_34_x.csv'' = Inr ''12_34''
   \<and> (0 < n \<and> reach_keys entries = Inr keys \<and> set_iteration set_order keys \<longrightarrow>
        (\<exists>d. get_reach_dict set_order (int n) entries = Inr d
           \<and> (\<forall>entry\<in>set entries. \<exists>key. reach_key entry = Inr key
                  \<and> count_list (concat (map snd d)) key = 1)
           \<and> (\<forall>key\<in>set (concat (map snd d)). \<exists>entry\<in>set entries. reach_key entry = Inr key)))"
proof -
  have tokens: "split name CHR ''_'' = a # b # rest \<longrightarrow> reach_key name = Inr (a @ ''_'' @ b)"
    using reach_key_of_tokens by blast
  have chars: "CHR ''_'' \<in> set name \<longrightarrow>
        reach_key name
          = Inr (takeWhile (\<lambda>x. x \<noteq> CHR ''_'') name @ ''_''
                 @ takeWhile (\<lambda>x. x \<noteq> CHR ''_'')
                     (tl (dropWhile (\<lambda>x. x \<noteq> CHR ''_'') name)))"
    using reach_key_two_tokens by blast
  have example: "reach_key ''12_34_x.csv'' = Inr ''12_34''"
    by code_simp
  have dedup: "\<exists>d. get_reach_dict set_order (int n) entries = Inr d
           \<and> (\<forall>entry\<in>set entries. \<exists>key. reach_key entry = Inr key
                  \<and> count_list (concat (map snd d)) key = 1)
           \<and> (\<forall>key\<in>set (concat (map snd d)). \<exists>entry\<in>set entries. reach_key entry = Inr key)"
    if n: "0 < n" and keys: "reach_keys entries = Inr keys" and it: "set_iteration set_order keys"
  proof -
    let ?d = "partition_plan (set_order keys) n"
    have dist: "distinct (set_order keys)" and st: "set (set_order keys) = set keys"
      using it by (simp_all add: set_iteration_def)
    have ret: "get_reach_dict set_order (int n) entries = Inr ?d"
      by (rule get_reach_dict_plan [OF n keys])
    have d1: "distinct (concat (map snd ?d))"
      by (rule plan_distinct [OF n dist])
    have d2: "set (concat (map snd ?d)) = {key. \<exists>entry\<in>set entries. reach_key entry = Inr key}"
      unfolding plan_set [OF n] st by (rule reach_keys_set [OF keys])
    have once: "\<exists>key. reach_key entry = Inr key \<and> count_list (concat (map snd ?d)) key = 1"
      if "entry \<in> set entries" for entry
    proof -
      have "\<forall>name\<in>set entries. CHR ''_'' \<in> set name"
        using keys reach_keys_Inr_iff by blast
      then have "CHR ''_'' \<in> set entry"
        using that by (rule bspec)
      then obtain key where key: "reach_key entry = Inr key"
        using reach_key_Inr_iff [of entry] by blast
      have "key \<in> {key. \<exists>entry\<in>set entries. reach_key entry = Inr key}"
        using that key by blast
      then have "key \<in> set (concat (map snd ?d))"
        by (simp only: d2)
      then have "count_list (concat (map snd ?d)) key = 1"
        by (rule count_list_distinct [OF d1])
      with key show ?thesis by blast
    qed
    have every: "\<forall>key\<in>set (concat (map snd ?d)). \<exists>entry\<in>set entries. reach_key entry = Inr key"
      unfolding d2 by simp
    show ?thesis using ret once every by blast
  qed
  show ?thesis using tokens chars example dedup by blast
qed

theorem reach_key_dedup_witness:
  "split ''12_34_x.csv'' CHR ''_'' = [''12'', ''34'', ''x.csv'']
   \<and> CHR ''_'' \<in> set ''12_34_x.csv''
   \<and> 0 < (2::nat)
   \<and> reach_keys [''1_2_a'', ''1_2_b'', ''3_4_a''] = Inr [''1_2'', ''1_2'', ''3_4'']
   \<and> set_iteration remdups [''1_2'', ''1_2'', ''3_4'']
   \<and> reach_key ''12_34_x.csv'' = Inr (''12'' @ ''_'' @ ''34'')
   \<and> (\<exists>d. get_reach_dict remdups (int 2) [''1_2_a'', ''1_2_b'', ''3_4_a''] = Inr d
          \<and> (\<forall>entry\<in>set [''1_2_a'', ''1_2_b'', ''3_4_a'']. \<exists>key. reach_key entry = Inr key
                 \<and> count_list (concat (map snd d)) key = 1))"
proof -
  have h1: "split ''12_34_x.csv'' CHR ''_'' = [''12'', ''34'', ''x.csv'']" by code_simp
  have h2: "CHR ''_'' \<in> set ''12_34_x.csv''" by simp
  have h3: "0 < (2::nat)" by simp
  have h4: "reach_keys [''1_2_a'', ''1_2_b'', ''3_4_a''] = Inr [''1_2'', ''1_2'', ''3_4'']"
    by code_simp
  have h5: "set_iteration remdups [''1_2'', ''1_2'', ''3_4'']"
    by (simp add: set_iteration_def)
  show ?thesis
    using h1 h2 h3 h4 h5
      reach_key_dedup [where name = "''12_34_x.csv''" and a = "''12''" and b = "''34''"
        and rest = "[''x.csv'']" and n = 2 and entries = "[''1_2_a'', ''1_2_b'', ''3_4_a'']"
        and keys = "[''1_2'', ''1_2'', ''3_4'']" and set_order = remdups]
    by blast
qed

lemma set_iteration_length:
  assumes "set_iteration f keys" and "set_iteration g keys"
  shows "length (f keys) = length (g keys)"
proof -
  have "length (f keys) = card (set keys)"
    using assms(1) distinct_card [of "f keys"] by (simp add: set_iteration_def)
  moreover have "length (g keys) = card (set keys)"
    using assms(2) distinct_card [of "g keys"] by (simp add: set_iteration_def)
  ultimately show ?thesis by simp
qed

lemma plan_lengths:
  assumes "0 < n"
  shows "map (\<lambda>item. length (snd item)) (partition_plan keys n)
           = map (\<lambda>i. length keys div n + (if i < length keys mod n then 1 else 0)) [0..<n]"
  by (simp add: partition_plan_rank_keys [OF assms] comp_def length_rank_keys)

text \<open>
  C3, as stated, fails: \<open>remdups\<close> and \<open>rev \<circ> remdups\<close> both enumerate the
  set of the two keys, and the two plans differ.
\<close>

theorem get_reach_dict_order_counterexample:
  "set_iteration remdups [''1_2'', ''3_4'']
   \<and> set_iteration (rev \<circ> remdups) [''1_2'', ''3_4'']
   \<and> get_reach_dict remdups 2 [''1_2_a'', ''3_4_a''] = Inr [(0, [''1_2'']), (1, [''3_4''])]
   \<and> get_reach_dict (rev \<circ> remdups) 2 [''1_2_a'', ''3_4_a'']
       = Inr [(0, [''3_4'']), (1, [''1_2''])]
   \<and> get_reach_dict remdups 2 [''1_2_a'', ''3_4_a'']
       \<noteq> get_reach_dict (rev \<circ> remdups) 2 [''1_2_a'', ''3_4_a'']"
proof -
  have a: "set_iteration remdups [''1_2'', ''3_4'']"
    by (simp add: set_iteration_def)
  have b: "set_iteration (rev \<circ> remdups) [''1_2'', ''3_4'']"
    by (simp add: set_iteration_def insert_commute)
  have c: "get_reach_dict remdups 2 [''1_2_a'', ''3_4_a''] = Inr [(0, [''1_2'']), (1, [''3_4''])]"
    by code_simp
  have d: "get_reach_dict (rev \<circ> remdups) 2 [''1_2_a'', ''3_4_a'']
             = Inr [(0, [''3_4'']), (1, [''1_2''])]"
    by code_simp
  have e: "get_reach_dict remdups 2 [''1_2_a'', ''3_4_a'']
             \<noteq> get_reach_dict (rev \<circ> remdups) 2 [''1_2_a'', ''3_4_a'']"
    unfolding c d by simp
  show ?thesis using a b c d e by blast
qed

text \<open>
  C3, amended. The plan depends on the enumeration of the key set only through
  the list it yields: two runs whose set iteration yields the same list return
  the same plan. Two runs with different enumerations of the same key set
  still return plans with the same ranks, the same count for every rank and the
  same keys over all ranks; only the sequence given to each rank may differ.
\<close>

theorem get_reach_dict_determinism:
  "(reach_keys entries = Inr keys \<and> set_order keys = set_order' keys \<longrightarrow>
      get_reach_dict set_order comm_size entries = get_reach_dict set_order' comm_size entries)
   \<and> (0 < n \<and> reach_keys entries = Inr keys
        \<and> set_iteration set_order keys \<and> set_iteration set_order' keys \<longrightarrow>
        (\<exists>d d'. get_reach_dict set_order (int n) entries = Inr d
            \<and> get_reach_dict set_order' (int n) entries = Inr d'
            \<and> map fst d = map fst d'
            \<and> map (\<lambda>item. length (snd item)) d = map (\<lambda>item. length (snd item)) d'
            \<and> set (concat (map snd d)) = set (concat (map snd d'))))"
proof -
  have same: "get_reach_dict set_order comm_size entries
                = get_reach_dict set_order' comm_size entries"
    if "reach_keys entries = Inr keys" and "set_order keys = set_order' keys"
    using that by (simp add: get_reach_dict_def divide_reaches_def)
  have other: "\<exists>d d'. get_reach_dict set_order (int n) entries = Inr d
            \<and> get_reach_dict set_order' (int n) entries = Inr d'
            \<and> map fst d = map fst d'
            \<and> map (\<lambda>item. length (snd item)) d = map (\<lambda>item. length (snd item)) d'
            \<and> set (concat (map snd d)) = set (concat (map snd d'))"
    if n: "0 < n" and keys: "reach_keys entries = Inr keys"
      and it: "set_iteration set_order keys" and it': "set_iteration set_order' keys"
  proof -
    let ?d = "partition_plan (set_order keys) n"
    let ?d' = "partition_plan (set_order' keys) n"
    have len: "length (set_order keys) = length (set_order' keys)"
      by (rule set_iteration_length [OF it it'])
    have "get_reach_dict set_order (int n) entries = Inr ?d"
      by (rule get_reach_dict_plan [OF n keys])
    moreover have "get_reach_dict set_order' (int n) entries = Inr ?d'"
      by (rule get_reach_dict_plan [OF n keys])
    moreover have "map fst ?d = map fst ?d'"
      by (simp only: plan_keys [OF n])
    moreover have "map (\<lambda>item. length (snd item)) ?d = map (\<lambda>item. length (snd item)) ?d'"
      by (simp only: plan_lengths [OF n] len)
    moreover have "set (concat (map snd ?d)) = set (concat (map snd ?d'))"
      using it it' by (simp only: plan_set [OF n] set_iteration_def)
    ultimately show ?thesis by blast
  qed
  show ?thesis using same other by blast
qed

theorem get_reach_dict_determinism_witness:
  "0 < (2::nat)
   \<and> reach_keys [''1_2_a'', ''3_4_a''] = Inr [''1_2'', ''3_4'']
   \<and> set_iteration remdups [''1_2'', ''3_4'']
   \<and> set_iteration (rev \<circ> remdups) [''1_2'', ''3_4'']
   \<and> (\<exists>d d'. get_reach_dict remdups (int 2) [''1_2_a'', ''3_4_a''] = Inr d
          \<and> get_reach_dict (rev \<circ> remdups) (int 2) [''1_2_a'', ''3_4_a''] = Inr d'
          \<and> map fst d = map fst d'
          \<and> map (\<lambda>item. length (snd item)) d = map (\<lambda>item. length (snd item)) d'
          \<and> set (concat (map snd d)) = set (concat (map snd d')))"
proof -
  have h1: "0 < (2::nat)" by simp
  have h2: "reach_keys [''1_2_a'', ''3_4_a''] = Inr [''1_2'', ''3_4'']" by code_simp
  have h3: "set_iteration remdups [''1_2'', ''3_4'']"
    by (simp add: set_iteration_def)
  have h4: "set_iteration (rev \<circ> remdups) [''1_2'', ''3_4'']"
    by (simp add: set_iteration_def insert_commute)
  show ?thesis
    using h1 h2 h3 h4
      get_reach_dict_determinism [where n = 2 and entries = "[''1_2_a'', ''3_4_a'']"
        and keys = "[''1_2'', ''3_4'']" and set_order = remdups
        and set_order' = "rev \<circ> remdups"]
    by blast
qed

text \<open>
  For a worker count \<open>n \<ge> 1\<close>, the only counts that \<open>COMM.Get_size()\<close> yields, the
  one exception of \<open>get_reach_dict\<close> is the \<open>IndexError\<close> of key derivation: the
  division, the lookups \<open>reach_dict[i]\<close> and the reads \<open>reach_list[reach_count]\<close>
  never raise.
\<close>

lemma get_reach_dict_errors:
  assumes "0 < n" and "get_reach_dict set_order (int n) entries = Inl e"
  shows "e = IndexError \<and> (\<exists>name\<in>set entries. CHR ''_'' \<notin> set name)"
proof (cases "reach_keys entries")
  case (Inl e')
  then have "e' = IndexError" by (rule reach_keys_error)
  moreover have "\<not> (\<forall>name\<in>set entries. CHR ''_'' \<in> set name)"
    using Inl reach_keys_Inr_iff [of entries] by auto
  ultimately show ?thesis using Inl assms(2) by (auto simp: get_reach_dict_def)
next
  case (Inr keys)
  then show ?thesis
    using get_reach_dict_plan [OF assms(1) Inr, of set_order] assms(2) by simp
qed

end
